theory Spec2Isabelle
  imports Complex_Main
begin

section \<open>Word Quest: the sentence controller and its word oracle\<close>

text \<open>
  The repository is a React client that builds one sentence word by word. The component
  \<open>Home\<close> holds the sentence, the phase and the candidate pairs in component state; its
  callbacks \<open>beginSentence\<close>, \<open>chooseWord\<close> and \<open>prefetchNext\<close> are asynchronous and suspend
  at the oracle call and at an 800 ms timer. The embedding below follows the variant that
  talks to the oracle directly (the file with \<open>generatePair(groq, words, targetLen)\<close>);
  the prompt selection of the older variants is modelled next to it.

  An asynchronous callback is split where it awaits: the part up to the \<open>await\<close> is one
  function on the component state, and what runs after the \<open>await\<close> is a second function
  that takes the values the closure captured when the callback was called. Pending
  continuations are kept in the state (\<open>timers\<close>, \<open>inflight\<close>), and an event delivers one.

  What the embedding takes for granted: the state updates of one handler or continuation
  are applied together and rendered before the next event is handled, so that a handler
  reads the state the event before it left; timers of equal delay fire in the order they
  were set; \<open>Math.random()\<close> returns a real number in \<open>[0, 1)\<close>; words are strings of
  8-bit characters, and \<open>toLowerCase\<close> changes the letters A to Z only.
\<close>

subsection \<open>Strings\<close>

text \<open>
  \<open>w.replace(/\.$/, "")\<close>: without the \<open>m\<close> flag \<open>$\<close> matches at the end of the input only,
  so the call removes one trailing period when there is one.
\<close>

definition endsWithPeriod :: "string \<Rightarrow> bool" where
  "endsWithPeriod w = (w \<noteq> [] \<and> last w = CHR ''.'')"

definition stripPeriod :: "string \<Rightarrow> string" where
  "stripPeriod w = (if endsWithPeriod w then butlast w else w)"

text \<open>
  \<open>toLowerCase\<close> on the letters A to Z; the oracle's contract is single English words, and
  other characters are left as they are (the code also folds capitals outside ASCII). The
  properties below that hold for every word do not depend on which letters are folded.
\<close>

definition toLowerCase_char :: "char \<Rightarrow> char" where
  "toLowerCase_char c =
     (case map_of (zip ''ABCDEFGHIJKLMNOPQRSTUVWXYZ'' ''abcdefghijklmnopqrstuvwxyz'') c of
        Some l \<Rightarrow> l
      | None \<Rightarrow> c)"

definition toLowerCase :: "string \<Rightarrow> string" where
  "toLowerCase w = map toLowerCase_char w"

text \<open>The cleaned form of a word: \<open>w.replace(/\.$/, "").toLowerCase()\<close>.\<close>

definition clean :: "string \<Rightarrow> string" where
  "clean w = toLowerCase (stripPeriod w)"

text \<open>\<open>new Set(words.map((w) => w.replace(/\.$/, "").toLowerCase()))\<close>\<close>

definition usedWordsOf :: "string list \<Rightarrow> string set" where
  "usedWordsOf ws = set (map clean ws)"

subsection \<open>Word pairs and the validation of the oracle's answer\<close>

record WordPair =
  safe :: string
  leap :: string

text \<open>
  What the completion call gives back: it throws (transport failure, or \<open>JSON.parse\<close>
  throws on the content), it has no message content, or the content parses to an object
  whose fields \<open>safe\<close> and \<open>leap\<close> are strings or are missing.
\<close>

datatype reply = Threw | NoContent | Parsed "string option" "string option"

text \<open>
  The hard filter of \<open>generatePair\<close>, from \<open>if (!pair.safe || !pair.leap) return null\<close> to
  \<open>return pair\<close>. A missing field is \<open>None\<close>; a missing and an empty string are both falsy.
  The two repairs run one after the other on the same object, as in the source.
\<close>

definition validatePair :: "string set \<Rightarrow> string option \<Rightarrow> string option \<Rightarrow> WordPair option" where
  "validatePair usedWords rawSafe rawLeap =
     (case rawSafe of
        None \<Rightarrow> None
      | Some s \<Rightarrow>
          (case rawLeap of
             None \<Rightarrow> None
           | Some l \<Rightarrow>
               if s = [] \<or> l = [] then None
               else
                 let safeClean = clean s; leapClean = clean l in
                 if safeClean \<in> usedWords \<and> leapClean \<in> usedWords then None
                 else
                   let pair0 = \<lparr>safe = s, leap = l\<rparr>;
                       pair1 = (if safeClean \<in> usedWords then pair0\<lparr>safe := leap pair0\<rparr> else pair0);
                       pair2 = (if leapClean \<in> usedWords then pair1\<lparr>leap := safe pair1\<rparr> else pair1)
                   in Some pair2))"

text \<open>
  The part of \<open>generatePair\<close> that runs once the completion call has settled: every
  failure, also the one caught by \<open>catch\<close>, is the value \<open>null\<close>.
\<close>

definition generatePair_result :: "string list \<Rightarrow> reply \<Rightarrow> WordPair option" where
  "generatePair_result ws r =
     (case r of
        Threw \<Rightarrow> None
      | NoContent \<Rightarrow> None
      | Parsed rawSafe rawLeap \<Rightarrow> validatePair (usedWordsOf ws) rawSafe rawLeap)"

subsection \<open>Prompt selection\<close>

text \<open>
  \<open>generatePair(groq, words, targetLen)\<close> picks one of four prompt texts. The texts
  themselves are not reproduced; what each says about punctuation is: the opening, the
  near-end and the middle prompt end with "No punctuation.", the last-word prompt says
  "Add a period after each word." and asks for \<open>{"safe": "word.", "leap": "word."}\<close>.
\<close>

datatype tier = Opening | LastWord | NearEnd | Middle

datatype period_rule = NoPunctuation | PeriodAfterEachWord | PeriodIfWordEnds

definition promptTier :: "string list \<Rightarrow> int \<Rightarrow> tier" where
  "promptTier ws targetLen =
     (let wordCount = int (length ws); remaining = targetLen - wordCount in
      if wordCount = 0 then Opening
      else if remaining \<le> 1 then LastWord
      else if remaining \<le> 3 then NearEnd
      else Middle)"

fun periodRule :: "tier \<Rightarrow> period_rule" where
  "periodRule Opening = NoPunctuation"
| "periodRule LastWord = PeriodAfterEachWord"
| "periodRule NearEnd = NoPunctuation"
| "periodRule Middle = NoPunctuation"

text \<open>
  The older builders, \<open>generatePair(groq, words, position)\<close> and the route handler \<open>POST\<close>,
  take no target length. They compute \<open>position === "first" ? 10 : Math.max(0, 10 - wordCount)\<close>
  and pick one of three texts: the first-word prompt ("no punctuation"), the ending prompt
  ("If the word would end the sentence, add a period after it") and the continuing prompt
  ("no punctuation"). The client passes \<open>"first"\<close> for an empty sentence and \<open>"middle"\<close>
  otherwise.
\<close>

datatype position_tier = FirstWord | Ending | Continuing

definition promptTier_position :: "string list \<Rightarrow> string \<Rightarrow> position_tier" where
  "promptTier_position ws position =
     (let wordCount = int (length ws);
          targetLength = (if position = ''first'' then 10 else max 0 (10 - wordCount)) in
      if position = ''first'' then FirstWord
      else if targetLength \<le> 2 then Ending
      else Continuing)"

fun periodRule_position :: "position_tier \<Rightarrow> period_rule" where
  "periodRule_position FirstWord = NoPunctuation"
| "periodRule_position Ending = PeriodIfWordEnds"
| "periodRule_position Continuing = NoPunctuation"

definition positionOf :: "string list \<Rightarrow> string" where
  "positionOf currentWords = (if length currentWords = 0 then ''first'' else ''middle'')"

subsection \<open>The component state\<close>

datatype phase = KeyEntry | Waiting | Choosing | Dissolving | Complete

datatype side = Safe | Leap

text \<open>
  A call of the oracle that has not settled yet, with the continuation that waits for it:
  \<open>beginSentence\<close> waits for the first pair, \<open>chooseWord\<close> for a fresh pair, \<open>prefetchNext\<close>
  for the next pair. The word list is the argument \<open>fetchPair\<close> was called with.
\<close>

datatype call = BeginFetch | FreshFetch "string list" | Prefetch "string list"

text \<open>
  A call of \<open>chooseWord\<close> suspended at its 800 ms timer. The closure holds the values of the
  render in which the user chose: \<open>words\<close>, the chosen word and \<open>prefetchedPair\<close>.
\<close>

record settle =
  heldWords :: "string list"
  chosen :: string
  heldPrefetched :: "WordPair option"

text \<open>
  The state hooks and refs of \<open>Home\<close>, in the order of the source, then the pending
  continuations and the number of \<open>Math.random()\<close> calls made so far. \<open>groqRef\<close> holds the key
  the client was made with. \<open>targetLength\<close> has no setter in the source.
\<close>

record home =
  words :: "string list"
  phase :: phase
  currentPair :: "WordPair option"
  prefetchedPair :: "WordPair option"
  chosenSide :: "side option"
  targetLength :: nat
  isLoading :: bool
  sentenceCount :: nat
  apiKey :: string
  keyError :: bool
  prefetchRef :: bool
  groqRef :: "string option"
  timers :: "settle list"
  inflight :: "call list"
  randomCalls :: nat

text \<open>
  \<open>8 + Math.floor(Math.random() * 5)\<close>, for a value \<open>u\<close> of \<open>Math.random()\<close>, which lies in
  \<open>[0, 1)\<close>. The product is the exact one here; the code rounds it to a double before the
  floor, which can give the next integer for some \<open>u\<close> (never 5: the largest double below 1
  times 5 rounds below 5), so the draw lies between 8 and 12 in both.
\<close>

definition drawTargetLength :: "real \<Rightarrow> nat" where
  "drawTargetLength u = 8 + nat \<lfloor>u * 5\<rfloor>"

text \<open>The first render; \<open>random\<close> gives the successive values of \<open>Math.random()\<close>.\<close>

definition Home_init :: "(nat \<Rightarrow> real) \<Rightarrow> home" where
  "Home_init random =
     \<lparr>words = [], phase = KeyEntry, currentPair = None, prefetchedPair = None,
      chosenSide = None, targetLength = drawTargetLength (random 0), isLoading = False,
      sentenceCount = 0, apiKey = [], keyError = False, prefetchRef = False,
      groqRef = None, timers = [], inflight = [], randomCalls = 1\<rparr>"

subsection \<open>The callbacks\<close>

text \<open>
  \<open>fetchPair\<close> returns \<open>null\<close> at once when there is no client; otherwise it calls
  \<open>generatePair\<close>, which sends the request. \<open>issue c s\<close> records the request in flight.
\<close>

definition issue :: "call \<Rightarrow> home \<Rightarrow> home" where
  "issue c s = s\<lparr>inflight := inflight s @ [c]\<rparr>"

text \<open>\<open>prefetchNext\<close> after its \<open>await\<close>: \<open>setPrefetchedPair(pair); prefetchRef.current = false\<close>.\<close>

definition prefetchNext_fetched :: "WordPair option \<Rightarrow> home \<Rightarrow> home" where
  "prefetchNext_fetched pair s = s\<lparr>prefetchedPair := pair, prefetchRef := False\<rparr>"

definition prefetchNext :: "string list \<Rightarrow> string \<Rightarrow> home \<Rightarrow> home" where
  "prefetchNext currentWords chosenWord s =
     (if prefetchRef s then s
      else
        let s1 = s\<lparr>prefetchRef := True\<rparr>;
            nextWords = currentWords @ [chosenWord] in
        case groqRef s1 of
          None \<Rightarrow> prefetchNext_fetched None s1
        | Some k \<Rightarrow> issue (Prefetch nextWords) s1)"

text \<open>\<open>beginSentence\<close> after its \<open>await\<close>.\<close>

definition beginSentence_fetched :: "WordPair option \<Rightarrow> home \<Rightarrow> home" where
  "beginSentence_fetched pair s =
     (case pair of
        Some p \<Rightarrow> s\<lparr>currentPair := Some p, phase := Choosing, isLoading := False\<rparr>
      | None \<Rightarrow> s\<lparr>keyError := True, phase := KeyEntry, isLoading := False\<rparr>)"

definition beginSentence :: "home \<Rightarrow> home" where
  "beginSentence s =
     (let s1 = s\<lparr>words := [], phase := Waiting, chosenSide := None,
                 prefetchedPair := None, isLoading := True\<rparr> in
      case groqRef s1 of
        None \<Rightarrow> beginSentence_fetched None s1
      | Some k \<Rightarrow> issue BeginFetch s1)"

text \<open>\<open>chooseWord\<close> after \<open>await fetchPair(newWords)\<close>.\<close>

definition chooseWord_fetched :: "WordPair option \<Rightarrow> home \<Rightarrow> home" where
  "chooseWord_fetched pair s =
     (case pair of
        Some p \<Rightarrow> s\<lparr>currentPair := Some p, phase := Choosing, isLoading := False\<rparr>
      | None \<Rightarrow> s\<lparr>isLoading := False\<rparr>)"

text \<open>
  \<open>chooseWord\<close> after the timer, from \<open>const newWords = [...words, chosen]\<close> on. \<open>words\<close>,
  \<open>chosen\<close> and \<open>prefetchedPair\<close> are the closure's values \<open>c\<close>, not the state's.
\<close>

definition chooseWord_settled :: "settle \<Rightarrow> home \<Rightarrow> home" where
  "chooseWord_settled c s =
     (let newWords = heldWords c @ [chosen c];
          endsWithPeriod' = endsWithPeriod (chosen c) in
      if length newWords \<ge> targetLength s \<or> endsWithPeriod' then
        (let sealed = (if \<not> endsWithPeriod'
                       then newWords[length newWords - 1 := chosen c @ ''.'']
                       else newWords) in
         s\<lparr>words := sealed, phase := Complete, sentenceCount := sentenceCount s + 1\<rparr>)
      else
        (let s1 = s\<lparr>words := newWords, chosenSide := None\<rparr> in
         case heldPrefetched c of
           Some p \<Rightarrow> s1\<lparr>currentPair := Some p, prefetchedPair := None, phase := Choosing\<rparr>
         | None \<Rightarrow>
             (let s2 = s1\<lparr>isLoading := True\<rparr> in
              case groqRef s2 of
                None \<Rightarrow> chooseWord_fetched None s2
              | Some k \<Rightarrow> issue (FreshFetch newWords) s2)))"

fun pick :: "side \<Rightarrow> WordPair \<Rightarrow> string" where
  "pick Safe p = safe p"
| "pick Leap p = leap p"

text \<open>\<open>chooseWord\<close> up to \<open>await new Promise((r) => setTimeout(r, 800))\<close>.\<close>

definition chooseWord :: "side \<Rightarrow> home \<Rightarrow> home" where
  "chooseWord sd s =
     (if phase s \<noteq> Choosing then s
      else
        case currentPair s of
          None \<Rightarrow> s
        | Some cp \<Rightarrow>
            let chosenWord = pick sd cp;
                s1 = s\<lparr>chosenSide := Some sd, phase := Dissolving\<rparr>;
                nextWords = words s @ [chosenWord];
                s2 = (if length nextWords < targetLength s
                      then prefetchNext (words s) chosenWord s1 else s1)
            in s2\<lparr>timers := timers s2 @
                   [\<lparr>heldWords = words s, chosen = chosenWord,
                     heldPrefetched = prefetchedPair s\<rparr>]\<rparr>)"

text \<open>\<open>submitKey\<close>, for the trimmed content \<open>k\<close> of the key field, and \<open>clearKey\<close>.\<close>

definition submitKey :: "string \<Rightarrow> home \<Rightarrow> home" where
  "submitKey k s =
     (if k = [] then s
      else s\<lparr>keyError := False, apiKey := k, groqRef := Some k, phase := Waiting\<rparr>)"

definition clearKey :: "home \<Rightarrow> home" where
  "clearKey s = s\<lparr>apiKey := [], groqRef := None, phase := KeyEntry\<rparr>"

text \<open>
  The effect \<open>if (apiKey && phase === "waiting") beginSentence()\<close> with the dependencies
  \<open>[apiKey, phase, beginSentence]\<close>: it runs after a render in which \<open>apiKey\<close> or \<open>phase\<close>
  differs from the render before (\<open>beginSentence\<close> never changes).
\<close>

definition beginEffect :: "home \<Rightarrow> home \<Rightarrow> home" where
  "beginEffect before s =
     (if (apiKey s \<noteq> apiKey before \<or> phase s \<noteq> phase before)
         \<and> apiKey s \<noteq> [] \<and> phase s = Waiting
      then beginSentence s else s)"

text \<open>
  Mounting: the first effect reads the stored key and, when there is one, sets \<open>apiKey\<close>,
  the client and the phase \<open>waiting\<close>; the begin effect then runs on the next render.
\<close>

definition mount :: "(nat \<Rightarrow> real) \<Rightarrow> string option \<Rightarrow> home" where
  "mount random stored =
     (let s0 = Home_init random in
      case stored of
        None \<Rightarrow> s0
      | Some k \<Rightarrow>
          if k = [] then s0
          else beginEffect s0 (s0\<lparr>apiKey := k, groqRef := Some k, phase := Waiting\<rparr>))"

subsection \<open>Events\<close>

text \<open>
  What can happen to a mounted component. The user chooses a side (the two buttons, or
  the arrow keys, which call \<open>chooseWord\<close>), restarts (the button and the keys for it exist
  in phase \<open>complete\<close> only), submits a key (the key screen is shown in phase \<open>key-entry\<close>
  only) or forgets the key (the button is shown outside \<open>key-entry\<close> while a key is held).
  The oldest timer fires (all timers have the same delay), or the call at position \<open>i\<close> of
  the calls in flight settles with a reply.
\<close>

datatype event =
    Choose side
  | Restart
  | SubmitKey string
  | ClearKey
  | TimerFires
  | Responds nat reply

definition drop_nth :: "nat \<Rightarrow> 'a list \<Rightarrow> 'a list" where
  "drop_nth i xs = take i xs @ drop (Suc i) xs"

fun settled :: "call \<Rightarrow> reply \<Rightarrow> home \<Rightarrow> home" where
  "settled BeginFetch r s = beginSentence_fetched (generatePair_result [] r) s"
| "settled (FreshFetch ws) r s = chooseWord_fetched (generatePair_result ws r) s"
| "settled (Prefetch ws) r s = prefetchNext_fetched (generatePair_result ws r) s"

fun handle :: "event \<Rightarrow> home \<Rightarrow> home" where
  "handle (Choose sd) s = chooseWord sd s"
| "handle Restart s = (if phase s = Complete then beginSentence s else s)"
| "handle (SubmitKey k) s = (if phase s = KeyEntry then submitKey k s else s)"
| "handle ClearKey s = (if apiKey s \<noteq> [] \<and> phase s \<noteq> KeyEntry then clearKey s else s)"
| "handle TimerFires s =
     (case timers s of
        [] \<Rightarrow> s
      | c # rest \<Rightarrow> chooseWord_settled c (s\<lparr>timers := rest\<rparr>))"
| "handle (Responds i r) s =
     (if i < length (inflight s)
      then settled (inflight s ! i) r (s\<lparr>inflight := drop_nth i (inflight s)\<rparr>)
      else s)"

text \<open>One event: its handler, then the render and the begin effect.\<close>

definition step :: "event \<Rightarrow> home \<Rightarrow> home" where
  "step e s = beginEffect s (handle e s)"

fun run :: "event list \<Rightarrow> home \<Rightarrow> home" where
  "run [] s = s"
| "run (e # es) s = run es (step e s)"

subsection \<open>Bookkeeping for the properties\<close>

text \<open>The prefetch calls among the calls in flight.\<close>

fun is_prefetch :: "call \<Rightarrow> bool" where
  "is_prefetch (Prefetch ws) = True"
| "is_prefetch c = False"

definition prefetchesInFlight :: "home \<Rightarrow> nat" where
  "prefetchesInFlight s = length (filter is_prefetch (inflight s))"

definition single_flight :: "home \<Rightarrow> bool" where
  "single_flight s = (prefetchesInFlight s = (if prefetchRef s then 1 else 0))"

text \<open>
  The calls whose continuation moves the sentence on: the first fetch of \<open>beginSentence\<close>
  and the fresh fetch of \<open>chooseWord\<close>.
\<close>

fun mainline :: "call \<Rightarrow> bool" where
  "mainline (Prefetch ws) = False"
| "mainline c = True"

definition mainCalls :: "home \<Rightarrow> call list" where
  "mainCalls s = filter mainline (inflight s)"

text \<open>
  \<open>beginSentence\<close> resets the sentence but cancels nothing, and \<open>clearKey\<close> only changes the
  phase. An event is steady in a state when it does not leave a continuation of the sentence
  before behind: the user chooses only when no first fetch is in flight, and forgets the key
  only when no timer, first fetch or fresh fetch is pending. A run is steady when each of
  its events is steady in the state it meets.
\<close>

fun steady :: "event \<Rightarrow> home \<Rightarrow> bool" where
  "steady (Choose sd) s = (BeginFetch \<notin> set (inflight s))"
| "steady ClearKey s = (timers s = [] \<and> mainCalls s = [])"
| "steady e s = True"

fun steady_run :: "event list \<Rightarrow> home \<Rightarrow> bool" where
  "steady_run [] s = True"
| "steady_run (e # es) s = (steady e s \<and> steady_run es (step e s))"

text \<open>
  What holds along a steady run. While a choice dissolves, one continuation of the sentence
  is pending at most, a timer whose closure holds the words of the state or a fresh fetch;
  a complete sentence has none and ends with a period; in the other phases only first
  fetches can be pending. While a pair is on offer, a choice dissolves or such a fetch is
  pending, the sentence is shorter than the target and has no period.
\<close>

definition orderly :: "home \<Rightarrow> bool" where
  "orderly s =
     ((case phase s of
         Dissolving \<Rightarrow>
           length (timers s) + length (mainCalls s) \<le> 1
           \<and> list_all (\<lambda>c. heldWords c = words s) (timers s)
           \<and> BeginFetch \<notin> set (inflight s)
       | Complete \<Rightarrow>
           timers s = [] \<and> mainCalls s = [] \<and> words s \<noteq> []
           \<and> endsWithPeriod (last (words s))
       | _ \<Rightarrow> timers s = [] \<and> list_all (\<lambda>c. c = BeginFetch) (mainCalls s))
      \<and> (phase s = Choosing \<or> phase s = Dissolving \<or> mainCalls s \<noteq> [] \<longrightarrow>
            length (words s) < targetLength s
            \<and> list_all (\<lambda>w. \<not> endsWithPeriod w) (words s))
      \<and> length (words s) \<le> targetLength s
      \<and> list_all (\<lambda>w. \<not> endsWithPeriod w) (butlast (words s)))"

subsection \<open>Concrete runs\<close>

text \<open>
  \<open>Math.random()\<close> returns 0 at the mount, which gives the target length 8, and 0.9 at any
  later call, which would give 12. A key is stored, so the first sentence begins at once.
\<close>

definition random_low :: "nat \<Rightarrow> real" where
  "random_low n = (if n = 0 then 0 else 9 / 10)"

definition mounted :: home where
  "mounted = mount random_low (Some ''gsk'')"

text \<open>The oracle offers a word with a period first, and the user takes it.\<close>

definition short_run :: "event list" where
  "short_run =
     [Responds 0 (Parsed (Some ''rain.'') (Some ''storm'')), Choose Safe, TimerFires]"

text \<open>
  The same, then a restart. Both first fetches of the restart are answered before the user
  chooses; the second sentence is "almost dawn.".
\<close>

definition second_run :: "event list" where
  "second_run =
     short_run @
     [Restart,
      Responds 1 (Parsed (Some ''we'') (Some ''almost'')),
      Responds 1 (Parsed (Some ''we'') (Some ''almost'')),
      Choose Leap, TimerFires, Responds 1 (Parsed (Some ''dawn.'') (Some ''home.'')),
      Choose Safe, TimerFires]"

text \<open>The first pair is on screen and the user has just chosen; the timer is running.\<close>

definition chosen_run :: "event list" where
  "chosen_run = [Responds 0 (Parsed (Some ''the'') (Some ''beneath'')), Choose Safe]"

text \<open>
  Two steps of a sentence. After the first choice the prefetch for \<open>["the"]\<close> is answered
  before the timer fires; the fresh fetch for \<open>["the"]\<close> is answered next. The user then
  chooses "window", and the timer fires while the prefetch for \<open>["the", "window"]\<close> is still
  in flight.
\<close>

definition stale_run :: "event list" where
  "stale_run =
     [Responds 0 (Parsed (Some ''the'') (Some ''beneath'')), Choose Safe,
      Responds 0 (Parsed (Some ''window'') (Some ''rain'')), TimerFires,
      Responds 0 (Parsed (Some ''rain'') (Some ''window'')), Choose Leap, TimerFires]"

text \<open>
  A one-word sentence, then a restart. The restart calls \<open>beginSentence\<close>, and the begin
  effect calls it again because the phase changed to \<open>waiting\<close>: two first fetches are in
  flight (positions 1 and 2, after the prefetch of the first sentence at position 0, which
  is not answered in this run). The first is answered at once and the user builds a
  sentence of eight words, each fresh fetch answered in turn. The second first fetch is
  answered after the sentence is complete, and the user chooses once more.
\<close>

definition race_run :: "event list" where
  "race_run =
     [Responds 0 (Parsed (Some ''rain.'') (Some ''storm'')), Choose Safe, TimerFires,
      Restart,
      Responds 1 (Parsed (Some ''we'') (Some ''almost'')),
      Choose Safe, TimerFires, Responds 2 (Parsed (Some ''carried'') (Some ''forgot'')),
      Choose Safe, TimerFires, Responds 2 (Parsed (Some ''the'') (Some ''every'')),
      Choose Safe, TimerFires, Responds 2 (Parsed (Some ''silence'') (Some ''river'')),
      Choose Safe, TimerFires, Responds 2 (Parsed (Some ''between'') (Some ''beneath'')),
      Choose Safe, TimerFires, Responds 2 (Parsed (Some ''us'') (Some ''winters'')),
      Choose Safe, TimerFires, Responds 2 (Parsed (Some ''like'') (Some ''unlike'')),
      Choose Safe, TimerFires, Responds 2 (Parsed (Some ''letters'') (Some ''salt'')),
      Choose Safe, TimerFires,
      Responds 1 (Parsed (Some ''again'') (Some ''elsewhere'')),
      Choose Safe, TimerFires]"

text \<open>
  A whole sentence without a period in any word offered: the target is 8 and the user takes
  the safe word eight times, each fresh fetch answered in turn (the prefetch of the first
  step, at position 0, is not answered in this run). \<open>last_choice_run\<close> ends with the eighth
  choice, \<open>full_run\<close> with its timer.
\<close>

definition last_choice_run :: "event list" where
  "last_choice_run =
     [Responds 0 (Parsed (Some ''we'') (Some ''almost'')),
      Choose Safe, TimerFires, Responds 1 (Parsed (Some ''carried'') (Some ''forgot'')),
      Choose Safe, TimerFires, Responds 1 (Parsed (Some ''the'') (Some ''every'')),
      Choose Safe, TimerFires, Responds 1 (Parsed (Some ''silence'') (Some ''river'')),
      Choose Safe, TimerFires, Responds 1 (Parsed (Some ''between'') (Some ''beneath'')),
      Choose Safe, TimerFires, Responds 1 (Parsed (Some ''us'') (Some ''winters'')),
      Choose Safe, TimerFires, Responds 1 (Parsed (Some ''like'') (Some ''unlike'')),
      Choose Safe, TimerFires, Responds 1 (Parsed (Some ''letters'') (Some ''salt'')),
      Choose Safe]"

definition full_run :: "event list" where
  "full_run = last_choice_run @ [TimerFires]"

text \<open>Nine words of a sentence, for the prompt builders.\<close>

definition nine_words :: "string list" where
  "nine_words =
     [''we'', ''carried'', ''the'', ''silence'', ''between'', ''us'', ''like'', ''an'',
      ''undelivered'']"

section \<open>Properties\<close>

subsection \<open>Auxiliary facts\<close>

lemmas clean_defs = clean_def stripPeriod_def endsWithPeriod_def toLowerCase_def
  toLowerCase_char_def

lemmas op_defs = chooseWord_def chooseWord_settled_def chooseWord_fetched_def
  beginSentence_def beginSentence_fetched_def prefetchNext_def prefetchNext_fetched_def
  issue_def submitKey_def clearKey_def beginEffect_def step_def Let_def

text \<open>Removing one element of a list, seen through a filter.\<close>

lemma filter_drop_nth:
  assumes "i < length xs"
  shows "length (filter P (drop_nth i xs)) = length (filter P xs) - (if P (xs ! i) then 1 else 0)"
proof -
  from assms have "xs = take i xs @ xs ! i # drop (Suc i) xs"
    by (rule id_take_nth_drop)
  then have "filter P xs = filter P (take i xs) @ filter P [xs ! i] @ filter P (drop (Suc i) xs)"
    by (metis append_Cons append_Nil filter_append)
  then show ?thesis
    by (simp add: drop_nth_def)
qed

lemma filter_drop_nth_keep:
  assumes "i < length xs" and "\<not> P (xs ! i)"
  shows "filter P (drop_nth i xs) = filter P xs"
proof -
  from assms have "xs = take i xs @ xs ! i # drop (Suc i) xs"
    by (simp add: id_take_nth_drop)
  then have "filter P xs = filter P (take i xs) @ filter P [xs ! i] @ filter P (drop (Suc i) xs)"
    by (metis append_Cons append_Nil filter_append)
  with assms show ?thesis
    by (simp add: drop_nth_def)
qed

lemma filter_nth_mem: "i < length xs \<Longrightarrow> P (xs ! i) \<Longrightarrow> xs ! i \<in> set (filter P xs)"
  by simp

lemma nth_filter_pos: "i < length xs \<Longrightarrow> P (xs ! i) \<Longrightarrow> 0 < length (filter P xs)"
  by (metis filter_empty_conv length_greater_0_conv nth_mem)

lemma set_drop_nth: "set (drop_nth i xs) \<subseteq> set xs"
  by (auto simp: drop_nth_def dest: in_set_takeD in_set_dropD)

text \<open>The target length is drawn at the mount and no event changes it.\<close>

lemma drawTargetLength_range:
  assumes "0 \<le> u" and "u < 1"
  shows "8 \<le> drawTargetLength u \<and> drawTargetLength u \<le> 12"
proof -
  from assms have "\<lfloor>u * 5\<rfloor> < 5"
    by (simp add: floor_less_iff)
  then have "nat \<lfloor>u * 5\<rfloor> \<le> 4"
    by linarith
  then show ?thesis
    unfolding drawTargetLength_def by linarith
qed

lemma targetLength_settled:
  "targetLength (settled c r s) = targetLength s \<and> randomCalls (settled c r s) = randomCalls s"
  by (cases c) (simp_all add: op_defs split: option.splits)

lemma targetLength_handle:
  "targetLength (handle e s) = targetLength s \<and> randomCalls (handle e s) = randomCalls s"
  by (cases e) (auto simp: op_defs targetLength_settled split: option.splits list.splits)

lemma targetLength_step:
  "targetLength (step e s) = targetLength s \<and> randomCalls (step e s) = randomCalls s"
  using targetLength_handle [of e s]
  by (auto simp: step_def beginEffect_def beginSentence_def beginSentence_fetched_def
        issue_def Let_def split: option.splits)

lemma targetLength_run:
  "targetLength (run es s) = targetLength s \<and> randomCalls (run es s) = randomCalls s"
  by (induction es arbitrary: s) (simp_all add: targetLength_step)

lemma targetLength_mount:
  "targetLength (mount random stored) = drawTargetLength (random 0)
   \<and> randomCalls (mount random stored) = 1"
  by (auto simp: mount_def Home_init_def op_defs split: option.splits)

text \<open>The in-flight flag counts the prefetches in flight, whatever the events.\<close>

lemma single_flight_beginSentence: "single_flight s \<Longrightarrow> single_flight (beginSentence s)"
  by (auto simp: single_flight_def prefetchesInFlight_def op_defs split: option.splits)

lemma single_flight_beginEffect: "single_flight s \<Longrightarrow> single_flight (beginEffect b s)"
  by (simp add: beginEffect_def single_flight_beginSentence)

lemma single_flight_chooseWord: "single_flight s \<Longrightarrow> single_flight (chooseWord sd s)"
  by (auto simp: single_flight_def prefetchesInFlight_def op_defs split: option.splits)

lemma single_flight_settled_timer:
  "single_flight s \<Longrightarrow> single_flight (chooseWord_settled c (s\<lparr>timers := rest\<rparr>))"
  by (auto simp: single_flight_def prefetchesInFlight_def op_defs split: option.splits)

lemma single_flight_responds:
  assumes "single_flight s" and "i < length (inflight s)"
  shows "single_flight (settled (inflight s ! i) r (s\<lparr>inflight := drop_nth i (inflight s)\<rparr>))"
proof (cases "inflight s ! i")
  case BeginFetch
  then show ?thesis
    using assms filter_drop_nth [OF assms(2), of is_prefetch]
    by (auto simp: single_flight_def prefetchesInFlight_def op_defs split: option.splits)
next
  case (FreshFetch ws)
  then show ?thesis
    using assms filter_drop_nth [OF assms(2), of is_prefetch]
    by (auto simp: single_flight_def prefetchesInFlight_def op_defs split: option.splits)
next
  case (Prefetch ws)
  then show ?thesis
    using assms filter_drop_nth [OF assms(2), of is_prefetch]
      nth_filter_pos [OF assms(2), of is_prefetch]
    by (auto simp: single_flight_def prefetchesInFlight_def op_defs
          split: option.splits if_splits)
qed

lemma single_flight_handle:
  assumes "single_flight s"
  shows "single_flight (handle e s)"
proof (cases e)
  case (Choose sd)
  with assms show ?thesis by (simp add: single_flight_chooseWord)
next
  case Restart
  with assms show ?thesis by (simp add: single_flight_beginSentence)
next
  case (SubmitKey k)
  with assms show ?thesis
    by (auto simp: single_flight_def prefetchesInFlight_def submitKey_def)
next
  case ClearKey
  with assms show ?thesis
    by (auto simp: single_flight_def prefetchesInFlight_def clearKey_def)
next
  case TimerFires
  with assms show ?thesis
    by (auto simp: single_flight_settled_timer split: list.splits)
next
  case (Responds i r)
  with assms show ?thesis by (simp add: single_flight_responds)
qed

lemma single_flight_step: "single_flight s \<Longrightarrow> single_flight (step e s)"
  by (simp add: step_def single_flight_beginEffect single_flight_handle)

lemma single_flight_run: "single_flight s \<Longrightarrow> single_flight (run es s)"
  by (induction es arbitrary: s) (simp_all add: single_flight_step)

lemma single_flight_mount: "single_flight (mount random stored)"
  by (auto simp: mount_def Home_init_def single_flight_def prefetchesInFlight_def op_defs
        split: option.splits)

text \<open>A steady event keeps an orderly state orderly.\<close>

lemma only_begin_drop_nth:
  "list_all (\<lambda>c. c = BeginFetch) (filter mainline xs) \<Longrightarrow>
     list_all (\<lambda>c. c = BeginFetch) (filter mainline (drop_nth i xs))"
  using set_drop_nth [of i xs] by (auto simp: list_all_iff)

lemma no_begin_no_main:
  "list_all (\<lambda>c. c = BeginFetch) (filter mainline xs) \<Longrightarrow> BeginFetch \<notin> set xs \<Longrightarrow>
     filter mainline xs = []"
  by (auto simp: list_all_iff filter_empty_conv)

lemma orderly_choose:
  assumes "orderly s" and "BeginFetch \<notin> set (inflight s)"
  shows "orderly (handle (Choose sd) s)"
proof (cases "phase s = Choosing")
  case True
  with assms have "mainCalls s = []" "timers s = []"
    by (auto simp: orderly_def mainCalls_def no_begin_no_main)
  with assms True show ?thesis
    by (auto simp: orderly_def mainCalls_def op_defs split: option.splits)
next
  case False
  with assms show ?thesis
    by (simp add: chooseWord_def split: option.splits)
qed

lemma orderly_beginSentence:
  assumes "orderly s" and "timers s = []" and "list_all (\<lambda>c. c = BeginFetch) (mainCalls s)"
    and "0 < targetLength s"
  shows "orderly (beginSentence s)
    \<and> timers (beginSentence s) = []
    \<and> list_all (\<lambda>c. c = BeginFetch) (mainCalls (beginSentence s))
    \<and> phase (beginSentence s) \<noteq> Dissolving \<and> phase (beginSentence s) \<noteq> Complete"
  using assms
  by (auto simp: orderly_def mainCalls_def op_defs split: option.splits)

lemma orderly_quiet:
  assumes "orderly s" and "phase s \<noteq> Dissolving"
  shows "timers s = [] \<and> list_all (\<lambda>c. c = BeginFetch) (mainCalls s)"
  using assms by (cases "phase s") (auto simp: orderly_def)

lemma orderly_beginEffect:
  assumes "orderly s" and "0 < targetLength s"
  shows "orderly (beginEffect b s)"
proof (cases "phase s = Waiting")
  case True
  then show ?thesis
    using assms orderly_quiet [of s] orderly_beginSentence [of s]
    by (simp add: beginEffect_def)
next
  case False
  with assms show ?thesis by (simp add: beginEffect_def)
qed

lemma orderly_restart:
  assumes "orderly s" and "0 < targetLength s"
  shows "orderly (handle Restart s)"
  using assms orderly_quiet [of s] orderly_beginSentence [of s]
  by (auto simp: orderly_def)

lemma orderly_submit: "orderly s \<Longrightarrow> orderly (handle (SubmitKey k) s)"
  by (cases "phase s") (auto simp: orderly_def mainCalls_def op_defs)

lemma orderly_clear:
  "orderly s \<Longrightarrow> timers s = [] \<and> mainCalls s = [] \<Longrightarrow> orderly (handle ClearKey s)"
  by (cases "phase s") (auto simp: orderly_def mainCalls_def op_defs)

lemma orderly_dissolving:
  assumes "orderly s" and "timers s = c # rest"
  shows "phase s = Dissolving \<and> rest = [] \<and> mainCalls s = [] \<and> heldWords c = words s
    \<and> length (words s) < targetLength s
    \<and> list_all (\<lambda>w. \<not> endsWithPeriod w) (words s)"
proof -
  from assms have "phase s = Dissolving"
    by (cases "phase s") (auto simp: orderly_def)
  with assms show ?thesis
    by (auto simp: orderly_def)
qed

lemma orderly_settled:
  assumes "orderly s" and "timers s = c # rest"
  shows "orderly (chooseWord_settled c (s\<lparr>timers := rest\<rparr>))"
proof -
  note f = orderly_dissolving [OF assms]
  from assms(1) f have "BeginFetch \<notin> set (inflight s)"
    by (simp add: orderly_def)
  with f show ?thesis
    by (auto simp: orderly_def mainCalls_def op_defs endsWithPeriod_def split: option.splits)
qed

lemma orderly_timer: "orderly s \<Longrightarrow> orderly (handle TimerFires s)"
  by (auto simp: orderly_settled split: list.splits)

lemma orderly_responds:
  assumes "orderly s" and "i < length (inflight s)"
  shows "orderly (settled (inflight s ! i) r (s\<lparr>inflight := drop_nth i (inflight s)\<rparr>))"
proof (cases "inflight s ! i")
  case (Prefetch ws)
  then have "filter mainline (drop_nth i (inflight s)) = filter mainline (inflight s)"
    using assms(2) by (simp add: filter_drop_nth_keep)
  then show ?thesis
    using assms(1) Prefetch set_drop_nth [of i "inflight s"]
    by (cases "phase s") (auto simp: orderly_def mainCalls_def op_defs)
next
  case BeginFetch
  then have m: "BeginFetch \<in> set (mainCalls s)" "BeginFetch \<in> set (inflight s)"
    using assms(2) filter_nth_mem [of i "inflight s" mainline] nth_mem [of i "inflight s"]
    by (auto simp: mainCalls_def)
  with assms(1) have ph: "phase s \<noteq> Dissolving" "phase s \<noteq> Complete"
    by (cases "phase s"; auto simp: orderly_def)+
  from m have "mainCalls s \<noteq> []"
    by auto
  with assms(1) ph have q: "timers s = []" "list_all (\<lambda>c. c = BeginFetch) (mainCalls s)"
    "length (words s) < targetLength s" "list_all (\<lambda>w. \<not> endsWithPeriod w) (words s)"
    "list_all (\<lambda>w. \<not> endsWithPeriod w) (butlast (words s))"
    using orderly_quiet [of s] by (auto simp: orderly_def)
  have "list_all (\<lambda>c. c = BeginFetch) (filter mainline (drop_nth i (inflight s)))"
    using q(2) by (simp add: mainCalls_def only_begin_drop_nth)
  then show ?thesis
    using BeginFetch q
    by (auto simp: orderly_def mainCalls_def op_defs split: option.splits)
next
  case (FreshFetch ws)
  then have m: "FreshFetch ws \<in> set (mainCalls s)"
    using assms(2) filter_nth_mem [of i "inflight s" mainline]
    by (auto simp: mainCalls_def)
  with assms(1) have ph: "phase s = Dissolving"
    by (cases "phase s"; auto simp: orderly_def list_all_iff)
  from m have pos: "0 < length (mainCalls s)"
    by (cases "mainCalls s") auto
  from assms(1) ph have "length (timers s) + length (mainCalls s) \<le> 1"
    by (simp add: orderly_def)
  with pos have "length (timers s) = 0" and "length (mainCalls s) = 1"
    by linarith+
  then have t: "timers s = []" "length (mainCalls s) = 1"
    by simp_all
  have "length (filter mainline (drop_nth i (inflight s))) = 0"
    using filter_drop_nth [OF assms(2), of mainline] FreshFetch t
    by (simp add: mainCalls_def)
  then have "filter mainline (drop_nth i (inflight s)) = []"
    by simp
  then show ?thesis
    using assms(1) FreshFetch ph t set_drop_nth [of i "inflight s"]
    by (auto simp: orderly_def mainCalls_def op_defs split: option.splits)
qed

lemma orderly_handle:
  assumes "orderly s" and "steady e s" and "0 < targetLength s"
  shows "orderly (handle e s)"
proof (cases e)
  case (Choose sd)
  with assms show ?thesis using orderly_choose [of s sd] by simp
next
  case Restart
  with assms show ?thesis using orderly_restart [of s] by simp
next
  case (SubmitKey k)
  with assms show ?thesis using orderly_submit [of s k] by simp
next
  case ClearKey
  with assms show ?thesis using orderly_clear [of s] by simp
next
  case TimerFires
  with assms show ?thesis using orderly_timer [of s] by simp
next
  case (Responds i r)
  with assms show ?thesis using orderly_responds [of s i r] by simp
qed

lemma orderly_step:
  assumes "orderly s" and "steady e s" and "0 < targetLength s"
  shows "orderly (step e s)"
  using orderly_beginEffect [OF orderly_handle [OF assms], of s] targetLength_handle [of e s] assms(3)
  by (simp add: step_def)

lemma orderly_run:
  "orderly s \<Longrightarrow> steady_run es s \<Longrightarrow> 0 < targetLength s \<Longrightarrow> orderly (run es s)"
  by (induction es arbitrary: s) (simp_all add: orderly_step targetLength_step)

lemma orderly_mount:
  "8 \<le> drawTargetLength (random 0) \<Longrightarrow> orderly (mount random stored)"
  by (auto simp: mount_def Home_init_def orderly_def mainCalls_def op_defs
        split: option.splits)

lemma orderly_steady_run:
  assumes "0 \<le> random 0" and "random 0 < 1" and "steady_run es (mount random stored)"
  shows "orderly (run es (mount random stored))"
proof -
  have "8 \<le> drawTargetLength (random 0)"
    using assms(1,2) drawTargetLength_range [of "random 0"] by simp
  then have "orderly (mount random stored)" and "0 < targetLength (mount random stored)"
    by (simp_all add: orderly_mount targetLength_mount)
  with assms(3) show ?thesis
    by (simp add: orderly_run)
qed

text \<open>Only the commit of a choice moves the phase to \<open>complete\<close>.\<close>

lemma phase_settled_complete: "phase (settled c r s) = Complete \<Longrightarrow> phase s = Complete"
  by (cases c) (auto simp: op_defs split: option.splits)

lemma sealed_by_settled:
  "phase (chooseWord_settled c s) = Complete \<Longrightarrow> phase s \<noteq> Complete \<Longrightarrow>
     words (chooseWord_settled c s) \<noteq> []
     \<and> endsWithPeriod (last (words (chooseWord_settled c s)))"
  by (auto simp: op_defs endsWithPeriod_def split: option.splits if_splits)

lemma entering_complete_handle:
  assumes "phase s \<noteq> Complete" and "phase (handle e s) = Complete"
  shows "words (handle e s) \<noteq> [] \<and> endsWithPeriod (last (words (handle e s)))"
proof (cases e)
  case TimerFires
  with assms show ?thesis
    using sealed_by_settled by (auto split: list.splits)
next
  case (Responds i r)
  with assms(2) have "i < length (inflight s)"
    and "phase (settled (inflight s ! i) r (s\<lparr>inflight := drop_nth i (inflight s)\<rparr>)) = Complete"
    using assms(1) by (auto split: if_splits)
  then have "phase (s\<lparr>inflight := drop_nth i (inflight s)\<rparr>) = Complete"
    using phase_settled_complete by blast
  with assms(1) show ?thesis
    by simp
next
  case (Choose sd)
  with assms show ?thesis
    by (auto simp: op_defs split: option.splits if_splits)
next
  case Restart
  with assms show ?thesis
    by (auto simp: op_defs split: option.splits if_splits)
next
  case (SubmitKey k)
  with assms show ?thesis
    by (auto simp: op_defs split: option.splits if_splits)
next
  case ClearKey
  with assms show ?thesis
    by (auto simp: op_defs split: option.splits if_splits)
qed

lemma entering_complete:
  assumes "phase s \<noteq> Complete" and "phase (step e s) = Complete"
  shows "words (step e s) \<noteq> [] \<and> endsWithPeriod (last (words (step e s)))"
proof -
  have "step e s = handle e s"
    using assms(2) by (auto simp: op_defs split: option.splits if_splits)
  with assms show ?thesis
    using entering_complete_handle [of s e] by simp
qed

text \<open>
  A complete sentence of a steady run was sealed by the commit of a choice, and keeps its
  words while the phase stays \<open>complete\<close>.
\<close>

lemma run_append: "run (es1 @ es2) s = run es2 (run es1 s)"
  by (induction es1 arbitrary: s) simp_all

lemma steady_run_append:
  "steady_run (es1 @ es2) s \<longleftrightarrow> steady_run es1 s \<and> steady_run es2 (run es1 s)"
  by (induction es1 arbitrary: s) auto

lemma phase_mount: "phase (mount random stored) \<noteq> Complete"
  by (auto simp: mount_def Home_init_def op_defs split: option.splits)

lemma entering_complete_timer:
  assumes "phase s \<noteq> Complete" and "phase (step e s) = Complete"
  shows "e = TimerFires \<and> (\<exists>c rest. timers s = c # rest)"
proof -
  have st: "step e s = handle e s"
    using assms(2) by (auto simp: op_defs split: option.splits if_splits)
  show ?thesis
  proof (cases e)
    case TimerFires
    with assms st show ?thesis
      by (cases "timers s") auto
  next
    case (Responds i r)
    with assms st have "i < length (inflight s)"
      and "phase (settled (inflight s ! i) r (s\<lparr>inflight := drop_nth i (inflight s)\<rparr>)) = Complete"
      by (auto split: if_splits)
    then have "phase (s\<lparr>inflight := drop_nth i (inflight s)\<rparr>) = Complete"
      using phase_settled_complete by blast
    with assms(1) show ?thesis
      by simp
  next
    case (Choose sd)
    with assms st show ?thesis
      by (auto simp: op_defs split: option.splits if_splits)
  next
    case Restart
    with assms st show ?thesis
      by (auto simp: op_defs split: option.splits if_splits)
  next
    case (SubmitKey k)
    with assms st show ?thesis
      by (auto simp: op_defs split: option.splits if_splits)
  next
    case ClearKey
    with assms st show ?thesis
      by (auto simp: op_defs split: option.splits if_splits)
  qed
qed

lemma complete_keeps_words:
  assumes "orderly s" and "phase s = Complete" and "phase (step e s) = Complete"
  shows "words (step e s) = words s"
proof -
  have st: "step e s = handle e s"
    using assms(3) by (auto simp: op_defs split: option.splits if_splits)
  from assms(1,2) have q: "timers s = []" "mainCalls s = []"
    by (simp_all add: orderly_def)
  show ?thesis
  proof (cases e)
    case (Responds i r)
    show ?thesis
    proof (cases "i < length (inflight s)")
      case True
      then have "\<not> mainline (inflight s ! i)"
        using q(2) filter_nth_mem [of i "inflight s" mainline] by (auto simp: mainCalls_def)
      then obtain ws where "inflight s ! i = Prefetch ws"
        by (cases "inflight s ! i") auto
      with True Responds st show ?thesis
        by (simp add: op_defs)
    next
      case False
      with Responds st show ?thesis by simp
    qed
  next
    case TimerFires
    with q st show ?thesis by simp
  next
    case (Choose sd)
    with assms st show ?thesis
      by (auto simp: op_defs split: option.splits if_splits)
  next
    case Restart
    with assms st show ?thesis
      by (auto simp: op_defs split: option.splits if_splits)
  next
    case (SubmitKey k)
    with assms st show ?thesis
      by (auto simp: op_defs split: option.splits if_splits)
  next
    case ClearKey
    with assms st show ?thesis
      by (auto simp: op_defs split: option.splits if_splits)
  qed
qed

lemma commit_in_order:
  assumes "orderly s" and "timers s = c # rest"
  shows "step TimerFires s = chooseWord_settled c (s\<lparr>timers := rest\<rparr>)
    \<and> heldWords c = words s \<and> length (words s) < targetLength s"
proof -
  note f = orderly_dissolving [OF assms]
  have "phase (handle TimerFires s) \<noteq> Waiting"
    using assms(2) f by (auto simp: op_defs split: option.splits)
  then have "step TimerFires s = chooseWord_settled c (s\<lparr>timers := rest\<rparr>)"
    using assms(2) by (simp add: step_def beginEffect_def)
  with f show ?thesis by simp
qed

lemma sealing_commit:
  assumes "orderly s" and "timers s = c # rest" and "phase (step TimerFires s) = Complete"
  shows "words (step TimerFires s)
      = words s @ [if endsWithPeriod (chosen c) then chosen c else chosen c @ ''.'']
    \<and> (\<not> endsWithPeriod (chosen c) \<longrightarrow>
          length (words (step TimerFires s)) = targetLength s
          \<and> \<not> endsWithPeriod (butlast (last (words (step TimerFires s)))))"
proof -
  note k = commit_in_order [OF assms(1,2)]
  from assms(1,2) have d: "phase s = Dissolving"
    using orderly_dissolving by blast
  show ?thesis
    using assms(3) k d
    by (auto simp: op_defs split: option.splits if_splits)
qed

lemma sealed_history:
  assumes "0 \<le> random 0" and "random 0 < 1"
  shows "steady_run es (mount random stored) \<Longrightarrow>
         phase (run es (mount random stored)) = Complete \<Longrightarrow>
     \<exists>es1 c rest es2. es = es1 @ TimerFires # es2
        \<and> timers (run es1 (mount random stored)) = c # rest
        \<and> words (run es (mount random stored))
            = words (run es1 (mount random stored))
              @ [if endsWithPeriod (chosen c) then chosen c else chosen c @ ''.'']
        \<and> (\<not> endsWithPeriod (chosen c) \<longrightarrow>
              length (words (run es (mount random stored)))
                = targetLength (run es (mount random stored))
              \<and> \<not> endsWithPeriod (butlast (last (words (run es (mount random stored))))))"
proof (induction es rule: rev_induct)
  case Nil
  then show ?case by (simp add: phase_mount)
next
  case (snoc e es)
  let ?m = "mount random stored"
  let ?s = "run es ?m"
  from snoc.prems(1) have st: "steady_run es ?m"
    by (simp add: steady_run_append)
  have o: "orderly ?s"
    using assms st by (rule orderly_steady_run)
  have r: "run (es @ [e]) ?m = step e ?s"
    by (simp add: run_append)
  have tl: "targetLength (step e ?s) = targetLength ?s"
    by (simp add: targetLength_step)
  show ?case
  proof (cases "phase ?s = Complete")
    case True
    from snoc.IH [OF st True] obtain es1 c rest es2 where
      h: "es = es1 @ TimerFires # es2" "timers (run es1 ?m) = c # rest"
         "words ?s = words (run es1 ?m)
              @ [if endsWithPeriod (chosen c) then chosen c else chosen c @ ''.'']"
         "\<not> endsWithPeriod (chosen c) \<longrightarrow>
              length (words ?s) = targetLength ?s
              \<and> \<not> endsWithPeriod (butlast (last (words ?s)))"
      by blast
    have w: "words (step e ?s) = words ?s"
      using complete_keeps_words [OF o True] snoc.prems(2) r by simp
    have "es @ [e] = es1 @ TimerFires # (es2 @ [e])"
      using h(1) by simp
    with h w tl r show ?thesis
      by (metis (no_types, lifting))
  next
    case False
    with snoc.prems(2) r have e: "e = TimerFires" and "\<exists>c rest. timers ?s = c # rest"
      using entering_complete_timer [of ?s e] by simp_all
    then obtain c rest where t: "timers ?s = c # rest"
      by blast
    have "phase (step TimerFires ?s) = Complete"
      using snoc.prems(2) r e by simp
    note k = sealing_commit [OF o t this]
    have "es @ [e] = es @ TimerFires # []"
      using e by simp
    with k t tl r e show ?thesis
      by (metis (no_types, lifting))
  qed
qed

subsection \<open>The finished sentence\<close>

text \<open>
  C1. The specification states: in every run that reaches \<open>complete\<close>, the finished
  sentence has between 8 and 12 words and its last word ends with exactly one period. The
  code seals the sentence as soon as a chosen word ends with a period
  (\<open>newWords.length >= targetLength || endsWithPeriod\<close>), so a sentence can be shorter than
  8 words, and a chosen word that already ends with a period is kept as it is. What holds:
  whenever an event moves the phase to \<open>complete\<close>, in any state, the sentence is not empty
  and its last word ends with a period; that last word is the chosen word, with a period
  appended if it has none. In every state of a steady run from the mount whose phase is
  \<open>complete\<close>, the sentence has at least one word and at most \<open>targetLength\<close> words,
  \<open>targetLength\<close> lies between 8 and 12, the last word ends with a period, and no earlier
  word does; the sentence was sealed by the commit of a choice earlier in the run, and
  unless the word chosen there already ended with a period, the sentence has exactly
  \<open>targetLength\<close> words and its last word ends with exactly one period. So does the sentence
  that the commit of a choice seals in a steady run, when the chosen word has no period:
  it has exactly \<open>targetLength\<close> words, between 8 and 12.
\<close>

theorem completed_sentence_shape:
  "(phase s0 \<noteq> Complete \<and> phase (step e s0) = Complete \<longrightarrow>
      words (step e s0) \<noteq> [] \<and> endsWithPeriod (last (words (step e s0))))
   \<and> (phase s0 \<noteq> Complete \<and> phase (chooseWord_settled c0 s0) = Complete \<longrightarrow>
        last (words (chooseWord_settled c0 s0))
          = (if endsWithPeriod (chosen c0) then chosen c0 else chosen c0 @ ''.''))
   \<and> (0 \<le> random 0 \<and> random 0 < 1 \<and> steady_run es (mount random stored)
        \<and> s = run es (mount random stored) \<and> phase s = Complete \<longrightarrow>
      1 \<le> length (words s) \<and> length (words s) \<le> targetLength s
      \<and> 8 \<le> targetLength s \<and> targetLength s \<le> 12
      \<and> endsWithPeriod (last (words s))
      \<and> list_all (\<lambda>w. \<not> endsWithPeriod w) (butlast (words s))
      \<and> (\<exists>es1 c rest es2.
            es = es1 @ TimerFires # es2
            \<and> timers (run es1 (mount random stored)) = c # rest
            \<and> words s = words (run es1 (mount random stored))
                  @ [if endsWithPeriod (chosen c) then chosen c else chosen c @ ''.'']
            \<and> (\<not> endsWithPeriod (chosen c) \<longrightarrow>
                  length (words s) = targetLength s
                  \<and> \<not> endsWithPeriod (butlast (last (words s))))))
   \<and> (0 \<le> random 0 \<and> random 0 < 1 \<and> steady_run es (mount random stored)
        \<and> s = run es (mount random stored) \<and> timers s = c # rest
        \<and> phase (step TimerFires s) = Complete \<and> \<not> endsWithPeriod (chosen c) \<longrightarrow>
      length (words (step TimerFires s)) = targetLength s
      \<and> 8 \<le> length (words (step TimerFires s)) \<and> length (words (step TimerFires s)) \<le> 12
      \<and> endsWithPeriod (last (words (step TimerFires s)))
      \<and> \<not> endsWithPeriod (butlast (last (words (step TimerFires s)))))"
proof -
  have sealing: "phase s0 \<noteq> Complete \<and> phase (step e s0) = Complete \<longrightarrow>
      words (step e s0) \<noteq> [] \<and> endsWithPeriod (last (words (step e s0)))"
    by (simp add: entering_complete)
  have appended: "phase s0 \<noteq> Complete \<and> phase (chooseWord_settled c0 s0) = Complete \<longrightarrow>
        last (words (chooseWord_settled c0 s0))
          = (if endsWithPeriod (chosen c0) then chosen c0 else chosen c0 @ ''.'')"
    by (auto simp: op_defs split: option.splits if_splits)
  have shape: "1 \<le> length (words s) \<and> length (words s) \<le> targetLength s
      \<and> 8 \<le> targetLength s \<and> targetLength s \<le> 12
      \<and> endsWithPeriod (last (words s))
      \<and> list_all (\<lambda>w. \<not> endsWithPeriod w) (butlast (words s))
      \<and> (\<exists>es1 c rest es2.
            es = es1 @ TimerFires # es2
            \<and> timers (run es1 (mount random stored)) = c # rest
            \<and> words s = words (run es1 (mount random stored))
                  @ [if endsWithPeriod (chosen c) then chosen c else chosen c @ ''.'']
            \<and> (\<not> endsWithPeriod (chosen c) \<longrightarrow>
                  length (words s) = targetLength s
                  \<and> \<not> endsWithPeriod (butlast (last (words s)))))"
    if a: "0 \<le> random 0 \<and> random 0 < 1 \<and> steady_run es (mount random stored)
        \<and> s = run es (mount random stored) \<and> phase s = Complete"
  proof -
    from a have o: "orderly s"
      by (simp add: orderly_steady_run)
    have t: "8 \<le> targetLength s \<and> targetLength s \<le> 12"
      using a drawTargetLength_range [of "random 0"]
      by (simp add: targetLength_run targetLength_mount)
    from a have ph: "phase s = Complete"
      by blast
    from o ph have "words s \<noteq> []" and "length (words s) \<le> targetLength s"
      and "endsWithPeriod (last (words s))"
      and "list_all (\<lambda>w. \<not> endsWithPeriod w) (butlast (words s))"
      by (simp_all add: orderly_def)
    with t have basic: "1 \<le> length (words s) \<and> length (words s) \<le> targetLength s
      \<and> 8 \<le> targetLength s \<and> targetLength s \<le> 12
      \<and> endsWithPeriod (last (words s))
      \<and> list_all (\<lambda>w. \<not> endsWithPeriod w) (butlast (words s))"
      by (cases "words s") simp_all
    from a have "0 \<le> random 0" and "random 0 < 1"
      and "steady_run es (mount random stored)"
      and "phase (run es (mount random stored)) = Complete"
      and s: "s = run es (mount random stored)"
      by blast+
    from sealed_history [OF this(1-4)] have "\<exists>es1 c rest es2.
            es = es1 @ TimerFires # es2
            \<and> timers (run es1 (mount random stored)) = c # rest
            \<and> words s = words (run es1 (mount random stored))
                  @ [if endsWithPeriod (chosen c) then chosen c else chosen c @ ''.'']
            \<and> (\<not> endsWithPeriod (chosen c) \<longrightarrow>
                  length (words s) = targetLength s
                  \<and> \<not> endsWithPeriod (butlast (last (words s))))"
      unfolding s .
    with basic show ?thesis
      by blast
  qed
  have full: "length (words (step TimerFires s)) = targetLength s
      \<and> 8 \<le> length (words (step TimerFires s)) \<and> length (words (step TimerFires s)) \<le> 12
      \<and> endsWithPeriod (last (words (step TimerFires s)))
      \<and> \<not> endsWithPeriod (butlast (last (words (step TimerFires s))))"
    if b: "0 \<le> random 0 \<and> random 0 < 1 \<and> steady_run es (mount random stored)
        \<and> s = run es (mount random stored) \<and> timers s = c # rest
        \<and> phase (step TimerFires s) = Complete \<and> \<not> endsWithPeriod (chosen c)"
  proof -
    from b have o: "orderly s"
      by (simp add: orderly_steady_run)
    have t: "8 \<le> targetLength s \<and> targetLength s \<le> 12"
      using b drawTargetLength_range [of "random 0"]
      by (simp add: targetLength_run targetLength_mount)
    from b have tm: "timers s = c # rest" and ph: "phase (step TimerFires s) = Complete"
      and np: "\<not> endsWithPeriod (chosen c)"
      by blast+
    note k = sealing_commit [OF o tm ph]
    from k np have w: "words (step TimerFires s) = words s @ [chosen c @ ''.'']"
      by simp
    from k np have l: "length (words (step TimerFires s)) = targetLength s"
      and x: "\<not> endsWithPeriod (butlast (last (words (step TimerFires s))))"
      by blast+
    from w have "endsWithPeriod (last (words (step TimerFires s)))"
      by (simp add: endsWithPeriod_def)
    with t l x show ?thesis
      by simp
  qed
  from sealing appended shape full show ?thesis
    by blast
qed

text \<open>
  Two runs: the one with a restart, whose second sentence is sealed by "dawn." with two
  words, and the one without a period in any word offered, whose sentence is sealed by the
  eighth choice with eight words, the target being 8.
\<close>

theorem completed_sentence_shape_witness:
  "steady_run second_run (mount random_low (Some ''gsk''))
   \<and> phase (run second_run (mount random_low (Some ''gsk''))) = Complete
   \<and> words (run second_run (mount random_low (Some ''gsk''))) = [''almost'', ''dawn.'']
   \<and> sentenceCount (run second_run (mount random_low (Some ''gsk''))) = 2
   \<and> targetLength (run second_run (mount random_low (Some ''gsk''))) = 8
   \<and> endsWithPeriod (last (words (run second_run (mount random_low (Some ''gsk'')))))
   \<and> steady_run full_run (mount random_low (Some ''gsk''))
   \<and> phase (run full_run (mount random_low (Some ''gsk''))) = Complete
   \<and> words (run full_run (mount random_low (Some ''gsk'')))
       = [''we'', ''carried'', ''the'', ''silence'', ''between'', ''us'', ''like'', ''letters.'']
   \<and> steady_run last_choice_run (mount random_low (Some ''gsk''))
   \<and> timers (run last_choice_run (mount random_low (Some ''gsk'')))
       = [\<lparr>heldWords = [''we'', ''carried'', ''the'', ''silence'', ''between'', ''us'', ''like''],
           chosen = ''letters'', heldPrefetched = None\<rparr>]
   \<and> phase (step TimerFires (run last_choice_run (mount random_low (Some ''gsk'')))) = Complete
   \<and> length (words (step TimerFires (run last_choice_run (mount random_low (Some ''gsk''))))) = 8"
proof -
  have r: "0 \<le> random_low 0" "random_low 0 < 1"
    by (simp_all add: random_low_def)
  have c: "steady_run second_run (mount random_low (Some ''gsk''))"
    by code_simp
  have p: "phase (run second_run (mount random_low (Some ''gsk''))) = Complete"
    by code_simp
  have w: "words (run second_run (mount random_low (Some ''gsk''))) = [''almost'', ''dawn.'']"
    by code_simp
  have n: "sentenceCount (run second_run (mount random_low (Some ''gsk''))) = 2"
    by code_simp
  have t: "targetLength (run second_run (mount random_low (Some ''gsk''))) = 8"
    by code_simp
  have c2: "steady_run full_run (mount random_low (Some ''gsk''))"
    by code_simp
  have p2: "phase (run full_run (mount random_low (Some ''gsk''))) = Complete"
    by code_simp
  have w2: "words (run full_run (mount random_low (Some ''gsk'')))
       = [''we'', ''carried'', ''the'', ''silence'', ''between'', ''us'', ''like'', ''letters.'']"
    by code_simp
  have c3: "steady_run last_choice_run (mount random_low (Some ''gsk''))"
    by code_simp
  have t3: "timers (run last_choice_run (mount random_low (Some ''gsk'')))
       = [\<lparr>heldWords = [''we'', ''carried'', ''the'', ''silence'', ''between'', ''us'', ''like''],
           chosen = ''letters'', heldPrefetched = None\<rparr>]"
    by code_simp
  have p3: "phase (step TimerFires (run last_choice_run (mount random_low (Some ''gsk''))))
      = Complete"
    by code_simp
  have l3: "targetLength (run last_choice_run (mount random_low (Some ''gsk''))) = 8"
    by code_simp
  have e3: "\<not> endsWithPeriod ''letters''"
    by (simp add: endsWithPeriod_def)
  have full: "length (words (step TimerFires (run last_choice_run (mount random_low (Some ''gsk'')))))
      = 8"
    using completed_sentence_shape
        [where random = random_low and es = last_choice_run and stored = "Some ''gsk''"
           and s = "run last_choice_run (mount random_low (Some ''gsk''))"
           and c = "\<lparr>heldWords = [''we'', ''carried'', ''the'', ''silence'', ''between'', ''us'',
                       ''like''], chosen = ''letters'', heldPrefetched = None\<rparr>"
           and rest = "[]"]
      r c3 t3 p3 l3 e3
    by simp
  have second: "endsWithPeriod (last (words (run second_run (mount random_low (Some ''gsk'')))))"
    using completed_sentence_shape
        [where random = random_low and es = second_run and stored = "Some ''gsk''"
           and s = "run second_run (mount random_low (Some ''gsk''))"]
      r c p
    by blast
  from c p w n t second c2 p2 w2 c3 t3 p3 full show ?thesis
    by simp
qed

text \<open>
  In \<open>short_run\<close> the first word offered is "rain." and the user takes it: the sentence is
  complete with one word.
\<close>

theorem short_sentence_counterexample:
  "\<not> (phase (run short_run mounted) = Complete \<longrightarrow>
        8 \<le> length (words (run short_run mounted))
        \<and> length (words (run short_run mounted)) \<le> 12
        \<and> endsWithPeriod (last (words (run short_run mounted)))
        \<and> \<not> endsWithPeriod (butlast (last (words (run short_run mounted)))))"
  by code_simp

subsection \<open>The pair adopted after a choice\<close>

text \<open>
  C2. The specification states: the pair adopted when \<open>dissolving\<close> goes back to
  \<open>choosing\<close> was fetched for the sentence as it now stands, and a prefetched
  pair for another word sequence is never adopted. \<open>chooseWord\<close> tests the
  \<open>prefetchedPair\<close> of the render in which the user chose, which cannot be the
  pair of the prefetch this very call started. In \<open>stale_run\<close> the pair adopted
  for the sentence "the window" is the one prefetched for "the"; it offers "window" again,
  and the prefetch for "the window" is still in flight.
\<close>

theorem stale_prefetch_adopted:
  "words (run stale_run mounted) = [''the'', ''window'']
   \<and> phase (run stale_run mounted) = Choosing
   \<and> currentPair (run stale_run mounted) = Some \<lparr>safe = ''window'', leap = ''rain''\<rparr>
   \<and> inflight (run stale_run mounted) = [Prefetch [''the'', ''window'']]
   \<and> clean ''window'' \<in> usedWordsOf (words (run stale_run mounted))"
  by code_simp

subsection \<open>Validation and repair\<close>

text \<open>
  C3. For every raw pair and every set \<open>U\<close> of used words: a missing or empty field gives
  \<open>null\<close>; two colliding fields give \<open>null\<close>; when exactly one field collides, it is replaced
  by the other field's original value; otherwise the pair is returned unchanged. The set the
  code passes is the cleaned forms of the sentence's words. \<open>{safe: "the", leap: "window"}\<close>
  with \<open>U = {"the"}\<close> gives \<open>{safe: "window", leap: "window"}\<close>, and \<open>{safe: "rain", leap: "rain"}\<close>
  with an empty \<open>U\<close> is returned unchanged.
\<close>

theorem validatePair_cases:
  "(rawSafe = None \<or> rawSafe = Some [] \<or> rawLeap = None \<or> rawLeap = Some []
      \<longrightarrow> validatePair U rawSafe rawLeap = None)
   \<and> (s \<noteq> [] \<and> l \<noteq> [] \<and> clean s \<in> U \<and> clean l \<in> U
      \<longrightarrow> validatePair U (Some s) (Some l) = None)
   \<and> (s \<noteq> [] \<and> l \<noteq> [] \<and> clean s \<in> U \<and> clean l \<notin> U
      \<longrightarrow> validatePair U (Some s) (Some l) = Some \<lparr>safe = l, leap = l\<rparr>)
   \<and> (s \<noteq> [] \<and> l \<noteq> [] \<and> clean s \<notin> U \<and> clean l \<in> U
      \<longrightarrow> validatePair U (Some s) (Some l) = Some \<lparr>safe = s, leap = s\<rparr>)
   \<and> (s \<noteq> [] \<and> l \<noteq> [] \<and> clean s \<notin> U \<and> clean l \<notin> U
      \<longrightarrow> validatePair U (Some s) (Some l) = Some \<lparr>safe = s, leap = l\<rparr>)
   \<and> generatePair_result ws (Parsed rawSafe rawLeap)
        = validatePair (usedWordsOf ws) rawSafe rawLeap
   \<and> validatePair {''the''} (Some ''the'') (Some ''window'')
        = Some \<lparr>safe = ''window'', leap = ''window''\<rparr>
   \<and> validatePair {} (Some ''rain'') (Some ''rain'')
        = Some \<lparr>safe = ''rain'', leap = ''rain''\<rparr>"
proof (intro conjI impI)
  assume "rawSafe = None \<or> rawSafe = Some [] \<or> rawLeap = None \<or> rawLeap = Some []"
  then show "validatePair U rawSafe rawLeap = None"
    by (auto simp: validatePair_def split: option.splits)
next
  show "validatePair {''the''} (Some ''the'') (Some ''window'')
          = Some \<lparr>safe = ''window'', leap = ''window''\<rparr>"
    by (simp add: validatePair_def clean_defs)
next
  show "validatePair {} (Some ''rain'') (Some ''rain'') = Some \<lparr>safe = ''rain'', leap = ''rain''\<rparr>"
    by (simp add: validatePair_def)
qed (simp_all add: validatePair_def generatePair_result_def)

text \<open>One input for each case, with capitals and a trailing period in the raw words.\<close>

theorem validatePair_cases_witness:
  "validatePair {''the''} (Some ''The.'') (Some ''window'')
      = Some \<lparr>safe = ''window'', leap = ''window''\<rparr>
   \<and> validatePair {''the''} (Some ''window'') (Some ''the.'')
      = Some \<lparr>safe = ''window'', leap = ''window''\<rparr>
   \<and> validatePair {''the''} (Some ''the'') (Some ''THE'') = None
   \<and> validatePair {''the''} (Some ''rain'') (Some ''window'')
      = Some \<lparr>safe = ''rain'', leap = ''window''\<rparr>
   \<and> validatePair {''the''} None (Some ''window'') = None
   \<and> validatePair {''the''} (Some ''rain'') (Some []) = None"
proof -
  have c1: "clean ''The.'' \<in> {''the''}" "clean ''the.'' \<in> {''the''}"
    "clean ''THE'' \<in> {''the''}" "clean ''the'' \<in> {''the''}"
    by (simp_all add: clean_defs)
  have c2: "clean ''window'' \<notin> {''the''}" "clean ''rain'' \<notin> {''the''}"
    by (simp_all add: clean_defs)
  show ?thesis
    using validatePair_cases [of "None" "Some ''window''" "{''the''}" "''The.''" "''window''"]
      validatePair_cases [of "Some ''rain''" "Some []" "{''the''}" "''window''" "''the.''"]
      validatePair_cases [of "None" "None" "{''the''}" "''the''" "''THE''"]
      validatePair_cases [of "None" "None" "{''the''}" "''rain''" "''window''"]
      c1 c2
    by simp
qed

subsection \<open>Restart\<close>

text \<open>
  C4. The specification states: a restart from \<open>complete\<close> empties the word
  sequence, clears the chosen side and the prefetched pair, and draws a fresh target length
  in [8, 12] before the phase is \<open>waiting\<close> again. \<open>targetLength\<close>
  comes from \<open>useState\<close> with an initialiser and has no setter: it is drawn
  once, at the mount. What holds, for a state reached from the mount that is complete and
  holds a client: after the restart the words are empty, the chosen side and the prefetched
  pair are cleared, the phase is \<open>waiting\<close>, and the target length is unchanged,
  namely the value drawn at the mount, which lies in [8, 12]; \<open>Math.random()\<close>
  has still been called once.
\<close>

theorem restart_keeps_target_length:
  assumes "0 \<le> random 0" and "random 0 < 1"
    and "s = run es (mount random stored)"
    and "phase s = Complete" and "groqRef s \<noteq> None"
  shows "words (step Restart s) = [] \<and> chosenSide (step Restart s) = None
    \<and> prefetchedPair (step Restart s) = None \<and> phase (step Restart s) = Waiting
    \<and> targetLength (step Restart s) = targetLength s
    \<and> targetLength s = drawTargetLength (random 0)
    \<and> 8 \<le> targetLength s \<and> targetLength s \<le> 12
    \<and> randomCalls (step Restart s) = 1"
proof -
  have t: "targetLength s = drawTargetLength (random 0)" "randomCalls s = 1"
    using assms(3) by (simp_all add: targetLength_run targetLength_mount)
  have r: "8 \<le> targetLength s \<and> targetLength s \<le> 12"
    using t drawTargetLength_range [OF assms(1,2)] by simp
  have f: "words (step Restart s) = [] \<and> chosenSide (step Restart s) = None
    \<and> prefetchedPair (step Restart s) = None \<and> phase (step Restart s) = Waiting"
    using assms(4,5) by (auto simp: op_defs)
  show ?thesis
    using t r f by (simp add: targetLength_step)
qed

text \<open>The restart after the one-word sentence of \<open>short_run\<close>.\<close>

theorem restart_keeps_target_length_witness:
  "phase (run short_run (mount random_low (Some ''gsk''))) = Complete
   \<and> groqRef (run short_run (mount random_low (Some ''gsk''))) = Some ''gsk''
   \<and> words (step Restart (run short_run (mount random_low (Some ''gsk'')))) = []
   \<and> phase (step Restart (run short_run (mount random_low (Some ''gsk'')))) = Waiting
   \<and> targetLength (step Restart (run short_run (mount random_low (Some ''gsk'')))) = 8"
proof -
  have r: "0 \<le> random_low 0" "random_low 0 < 1"
    by (simp_all add: random_low_def)
  have p: "phase (run short_run (mount random_low (Some ''gsk''))) = Complete"
    by code_simp
  have g: "groqRef (run short_run (mount random_low (Some ''gsk''))) = Some ''gsk''"
    by code_simp
  have g': "groqRef (run short_run (mount random_low (Some ''gsk''))) \<noteq> None"
    using g by simp
  have d: "drawTargetLength (random_low 0) = 8"
    by (simp add: drawTargetLength_def random_low_def)
  show ?thesis
    using restart_keeps_target_length [OF r refl p g'] p g d by simp
qed

text \<open>
  In the same state the next value of \<open>Math.random()\<close> is 0.9, which would give 12; after
  the restart the target length is still 8 and no value has been drawn.
\<close>

theorem restart_redraw_counterexample:
  "\<not> (words (step Restart (run short_run mounted)) = []
       \<and> chosenSide (step Restart (run short_run mounted)) = None
       \<and> prefetchedPair (step Restart (run short_run mounted)) = None
       \<and> randomCalls (step Restart (run short_run mounted))
           = Suc (randomCalls (run short_run mounted))
       \<and> targetLength (step Restart (run short_run mounted))
           = drawTargetLength (random_low (randomCalls (run short_run mounted)))
       \<and> phase (step Restart (run short_run mounted)) = Waiting)"
proof -
  have "randomCalls (step Restart (run short_run mounted)) = 1"
    by code_simp
  moreover have "randomCalls (run short_run mounted) = 1"
    by code_simp
  ultimately show ?thesis
    by simp
qed

subsection \<open>Prompt tiers\<close>

text \<open>
  C5. The specification states: every prompt builder of the repository selects among four
  tiers by \<open>remaining = targetLength - len(sentenceSoFar)\<close>. That holds for the
  builder that takes the target length: the opening tier for an empty sentence, the
  last-word tier for \<open>remaining <= 1\<close>, the near-end tier for
  \<open>remaining\<close> 2 or 3, the middle tier otherwise, and only the last-word tier
  asks for a period after each word; with a target of 10, nine words give the last-word tier
  and no word gives the opening tier. The two older builders take a position instead of a
  target length and have three tiers, decided by the word count against the constant 10: the
  first-word tier for an empty sentence, the ending tier from eight words on, the continuing
  tier otherwise; none of their prompts requires a period.
\<close>

theorem prompt_tiers:
  "(length ws = 0 \<longrightarrow> promptTier ws T = Opening)
   \<and> (length ws \<noteq> 0 \<and> T - int (length ws) \<le> 1 \<longrightarrow> promptTier ws T = LastWord)
   \<and> (length ws \<noteq> 0 \<and> 2 \<le> T - int (length ws) \<and> T - int (length ws) \<le> 3
        \<longrightarrow> promptTier ws T = NearEnd)
   \<and> (length ws \<noteq> 0 \<and> 4 \<le> T - int (length ws) \<longrightarrow> promptTier ws T = Middle)
   \<and> (periodRule t = PeriodAfterEachWord \<longleftrightarrow> t = LastWord)
   \<and> (t \<noteq> LastWord \<longrightarrow> periodRule t = NoPunctuation)
   \<and> (length ws = 9 \<longrightarrow> promptTier ws 10 = LastWord)
   \<and> promptTier [] 10 = Opening
   \<and> promptTier_position ws (positionOf ws)
        = (if length ws = 0 then FirstWord else if 8 \<le> length ws then Ending else Continuing)
   \<and> periodRule_position pt \<noteq> PeriodAfterEachWord"
proof -
  have a: "periodRule t = PeriodAfterEachWord \<longleftrightarrow> t = LastWord"
    by (cases t) simp_all
  have b: "t \<noteq> LastWord \<longrightarrow> periodRule t = NoPunctuation"
    by (cases t) simp_all
  have c: "periodRule_position pt \<noteq> PeriodAfterEachWord"
    by (cases pt) simp_all
  have d: "promptTier_position ws (positionOf ws)
        = (if length ws = 0 then FirstWord else if 8 \<le> length ws then Ending else Continuing)"
    by (auto simp: promptTier_position_def positionOf_def Let_def)
  from a b c d show ?thesis
    by (simp add: promptTier_def Let_def)
qed

text \<open>Nine words against the targets 10, 12 and 20, and the older builder on nine words.\<close>

theorem prompt_tiers_witness:
  "promptTier nine_words 10 = LastWord
   \<and> promptTier nine_words 12 = NearEnd
   \<and> promptTier nine_words 20 = Middle
   \<and> periodRule (promptTier nine_words 10) = PeriodAfterEachWord
   \<and> periodRule (promptTier nine_words 12) = NoPunctuation
   \<and> promptTier_position nine_words (positionOf nine_words) = Ending"
proof -
  have n: "length nine_words = 9"
    by (simp add: nine_words_def)
  show ?thesis
    using prompt_tiers [of nine_words 10 LastWord FirstWord]
      prompt_tiers [of nine_words 12 NearEnd FirstWord]
      prompt_tiers [of nine_words 20 Middle FirstWord] n
    by simp
qed

text \<open>
  With nine words the older builder selects the ending tier, the one it also selects with
  eight words; its prompt asks for a period only "if the word would end the sentence".
\<close>

theorem position_builder_counterexample:
  "\<not> (periodRule_position (promptTier_position nine_words (positionOf nine_words))
        = PeriodAfterEachWord)"
  by (simp add: promptTier_position_def positionOf_def nine_words_def)

subsection \<open>The length of the sentence\<close>

text \<open>
  C6. The specification states: at every reachable state \<open>len(words) <= targetLength\<close>, the
  sentence is sealed exactly when the appended word makes the length reach the target or
  already ends with a period, and no operation makes the sentence longer than the target.
  A first fetch is never cancelled, and a restart starts two of them, so an answer can
  arrive after the sentence is complete and put the complete sentence back into \<open>choosing\<close>;
  the next choice then appends a word beyond the target. What holds: in any state that is
  not complete, the commit of a choice seals the sentence exactly when the closure's words
  with the chosen word reach the target or the chosen word ends with a period, and then
  appends a period to the chosen word if it has none. And in every state of a steady run
  from the mount: the sentence is not longer than the target; while the phase is \<open>choosing\<close>
  or \<open>dissolving\<close> it is shorter than the target and no word of it ends with a period; no
  steady event makes it longer than the target; and the closure of a pending timer holds
  the words of the state, so the commit appends the chosen word to the sentence as it
  stands.
\<close>

theorem sentence_within_target:
  "(phase s0 \<noteq> Complete \<longrightarrow>
      (phase (chooseWord_settled c0 s0) = Complete \<longleftrightarrow>
         targetLength s0 \<le> length (heldWords c0 @ [chosen c0]) \<or> endsWithPeriod (chosen c0)))
   \<and> (phase (chooseWord_settled c0 s0) = Complete \<and> phase s0 \<noteq> Complete \<longrightarrow>
        words (chooseWord_settled c0 s0) =
          heldWords c0 @ [if endsWithPeriod (chosen c0) then chosen c0 else chosen c0 @ ''.''])
   \<and> (0 \<le> random 0 \<and> random 0 < 1 \<and> steady_run es (mount random stored)
        \<and> s = run es (mount random stored) \<longrightarrow>
      length (words s) \<le> targetLength s
      \<and> (phase s = Choosing \<or> phase s = Dissolving \<longrightarrow>
            length (words s) < targetLength s
            \<and> list_all (\<lambda>w. \<not> endsWithPeriod w) (words s))
      \<and> (steady e s \<longrightarrow> length (words (step e s)) \<le> targetLength s)
      \<and> (timers s = c # rest \<longrightarrow>
            heldWords c = words s
            \<and> (phase (step TimerFires s) = Complete \<longleftrightarrow>
                 targetLength s \<le> length (words s @ [chosen c]) \<or> endsWithPeriod (chosen c))
            \<and> (phase (step TimerFires s) = Complete \<longrightarrow>
                 words (step TimerFires s) =
                   words s @ [if endsWithPeriod (chosen c) then chosen c else chosen c @ ''.''])
            \<and> (phase (step TimerFires s) \<noteq> Complete \<longrightarrow>
                 words (step TimerFires s) = words s @ [chosen c])))"
proof (intro conjI impI)
  assume "phase s0 \<noteq> Complete"
  then show "phase (chooseWord_settled c0 s0) = Complete \<longleftrightarrow>
         targetLength s0 \<le> length (heldWords c0 @ [chosen c0]) \<or> endsWithPeriod (chosen c0)"
    by (auto simp: op_defs split: option.splits)
next
  assume "phase (chooseWord_settled c0 s0) = Complete \<and> phase s0 \<noteq> Complete"
  then show "words (chooseWord_settled c0 s0) =
          heldWords c0 @ [if endsWithPeriod (chosen c0) then chosen c0 else chosen c0 @ ''.'']"
    by (auto simp: op_defs split: option.splits if_splits)
next
  assume a: "0 \<le> random 0 \<and> random 0 < 1 \<and> steady_run es (mount random stored)
        \<and> s = run es (mount random stored)"
  then have o: "orderly s"
    by (simp add: orderly_steady_run)
  have pos: "0 < targetLength s"
    using a drawTargetLength_range [of "random 0"]
    by (simp add: targetLength_run targetLength_mount)
  from o show "length (words s) \<le> targetLength s"
    by (simp add: orderly_def)
  show "length (words (step e s)) \<le> targetLength s" if "steady e s"
    using orderly_step [OF o that pos] targetLength_step [of e s] by (simp add: orderly_def)
  {
    assume "phase s = Choosing \<or> phase s = Dissolving"
    with o show "length (words s) < targetLength s"
      and "list_all (\<lambda>w. \<not> endsWithPeriod w) (words s)"
      by (auto simp: orderly_def)
  }
  {
    assume tm: "timers s = c # rest"
    note f = orderly_dissolving [OF o tm]
    from f show "heldWords c = words s"
      by simp
    have h: "phase (handle TimerFires s) \<noteq> Waiting"
      using tm f by (auto simp: op_defs split: option.splits)
    then have st: "step TimerFires s = chooseWord_settled c (s\<lparr>timers := rest\<rparr>)"
      using tm by (simp add: step_def beginEffect_def)
    show "phase (step TimerFires s) = Complete \<longleftrightarrow>
            targetLength s \<le> length (words s @ [chosen c]) \<or> endsWithPeriod (chosen c)"
      unfolding st using f by (auto simp: op_defs split: option.splits)
    show "words (step TimerFires s) =
            words s @ [if endsWithPeriod (chosen c) then chosen c else chosen c @ ''.'']"
      if "phase (step TimerFires s) = Complete"
      using that unfolding st using f by (auto simp: op_defs split: option.splits if_splits)
    show "words (step TimerFires s) = words s @ [chosen c]"
      if "phase (step TimerFires s) \<noteq> Complete"
      using that unfolding st using f by (auto simp: op_defs split: option.splits if_splits)
  }
qed

text \<open>The user has chosen "the" as the first word, and the timer fires.\<close>

theorem sentence_within_target_witness:
  "steady_run chosen_run (mount random_low (Some ''gsk''))
   \<and> steady TimerFires (run chosen_run (mount random_low (Some ''gsk'')))
   \<and> timers (run chosen_run (mount random_low (Some ''gsk'')))
      = [\<lparr>heldWords = [], chosen = ''the'', heldPrefetched = None\<rparr>]
   \<and> phase (run chosen_run (mount random_low (Some ''gsk''))) = Dissolving
   \<and> phase (step TimerFires (run chosen_run (mount random_low (Some ''gsk'')))) \<noteq> Complete
   \<and> words (step TimerFires (run chosen_run (mount random_low (Some ''gsk'')))) = [''the'']
   \<and> length (words (step TimerFires (run chosen_run (mount random_low (Some ''gsk'')))))
       \<le> targetLength (run chosen_run (mount random_low (Some ''gsk'')))"
proof -
  have r: "0 \<le> random_low 0" "random_low 0 < 1"
    by (simp_all add: random_low_def)
  have c: "steady_run chosen_run (mount random_low (Some ''gsk''))"
    by code_simp
  have t: "timers (run chosen_run (mount random_low (Some ''gsk'')))
      = [\<lparr>heldWords = [], chosen = ''the'', heldPrefetched = None\<rparr>]"
    by code_simp
  have p: "phase (run chosen_run (mount random_low (Some ''gsk''))) = Dissolving"
    by code_simp
  have w: "words (run chosen_run (mount random_low (Some ''gsk''))) = []"
    by code_simp
  have l: "targetLength (run chosen_run (mount random_low (Some ''gsk''))) = 8"
    by code_simp
  have e: "\<not> endsWithPeriod ''the''"
    by (simp add: endsWithPeriod_def)
  show ?thesis
    using sentence_within_target
        [where random = random_low and es = chosen_run and stored = "Some ''gsk''"
           and s = "run chosen_run (mount random_low (Some ''gsk''))" and e = TimerFires
           and c = "\<lparr>heldWords = [], chosen = ''the'', heldPrefetched = None\<rparr>"
           and rest = "[]"]
      r c t p w l e
    by simp
qed

text \<open>
  \<open>race_run\<close>: the target is 8, and the late answer to the second first fetch lets the user
  append a ninth word to the sealed sentence.
\<close>

theorem race_counterexample:
  "\<not> length (words (run race_run mounted)) \<le> targetLength (run race_run mounted)"
  by code_simp

subsection \<open>Failures\<close>



subsection \<open>No used word in a validated pair\<close>

text \<open>
  C8. Whenever the validation returns a pair, neither field of the pair collides with the
  used words after period-stripping and case-folding; so whichever side the user picks from
  a pair that \<open>generatePair\<close> returned for the words \<open>ws\<close>, its cleaned form differs from the
  cleaned form of every word of \<open>ws\<close>.
\<close>

theorem validated_pair_unused:
  "(validatePair U rawSafe rawLeap = Some p \<longrightarrow> clean (safe p) \<notin> U \<and> clean (leap p) \<notin> U)
   \<and> (generatePair_result ws r = Some p \<longrightarrow>
        clean (pick sd p) \<notin> usedWordsOf ws \<and> (\<forall>w \<in> set ws. clean (pick sd p) \<noteq> clean w))"
proof -
  have a: "clean (safe q) \<notin> V \<and> clean (leap q) \<notin> V" if "validatePair V x y = Some q"
    for V x y q
    using that by (auto simp: validatePair_def Let_def split: option.splits if_splits)
  have b: "clean (pick sd p) \<notin> usedWordsOf ws" if "generatePair_result ws r = Some p"
    using that a [of "usedWordsOf ws" _ _ p]
    by (cases sd) (auto simp: generatePair_result_def split: reply.splits)
  from a b show ?thesis
    by (auto simp: usedWordsOf_def)
qed

text \<open>The sentence "The rain." and the raw pair "the" and "window".\<close>

theorem validated_pair_unused_witness:
  "generatePair_result [''The'', ''rain.''] (Parsed (Some ''the'') (Some ''window''))
      = Some \<lparr>safe = ''window'', leap = ''window''\<rparr>
   \<and> clean (pick Safe \<lparr>safe = ''window'', leap = ''window''\<rparr>) \<notin> usedWordsOf [''The'', ''rain.'']
   \<and> clean (pick Safe \<lparr>safe = ''window'', leap = ''window''\<rparr>) \<noteq> clean ''The''
   \<and> clean (pick Safe \<lparr>safe = ''window'', leap = ''window''\<rparr>) \<noteq> clean ''rain.''"
proof -
  have g: "generatePair_result [''The'', ''rain.''] (Parsed (Some ''the'') (Some ''window''))
      = Some \<lparr>safe = ''window'', leap = ''window''\<rparr>"
    by (simp add: generatePair_result_def validatePair_def usedWordsOf_def clean_defs)
  show ?thesis
    using validated_pair_unused
        [of "{}" None None "\<lparr>safe = ''window'', leap = ''window''\<rparr>" "[''The'', ''rain.'']"
            "Parsed (Some ''the'') (Some ''window'')" Safe] g
    by simp
qed

subsection \<open>One prefetch at a time\<close>

text \<open>
  C9. In every state reached from the mount, by any events, at most one prefetch call is in
  flight, and the in-flight flag is set exactly when there is one. While the flag is set,
  \<open>prefetchNext\<close> changes nothing, so it issues no request. When a prefetch in flight is
  answered, the flag is cleared and no prefetch is in flight.
\<close>

theorem prefetch_single_flight:
  assumes "s = run es (mount random stored)"
  shows "prefetchesInFlight s \<le> 1
    \<and> (prefetchRef s \<longleftrightarrow> prefetchesInFlight s = 1)
    \<and> (prefetchRef s \<longrightarrow> prefetchNext ws w s = s)
    \<and> (i < length (inflight s) \<and> is_prefetch (inflight s ! i)
         \<longrightarrow> \<not> prefetchRef (step (Responds i r) s)
           \<and> prefetchesInFlight (step (Responds i r) s) = 0)"
proof -
  have sf: "single_flight s"
    using assms by (simp add: single_flight_run single_flight_mount)
  have sf': "single_flight (step (Responds i r) s)"
    using sf by (rule single_flight_step)
  have cl: "\<not> prefetchRef (step (Responds i r) s)"
    if "i < length (inflight s)" "is_prefetch (inflight s ! i)"
    using that by (cases "inflight s ! i") (auto simp: op_defs split: option.splits)
  show ?thesis
    using sf sf' cl
    by (auto simp: single_flight_def prefetchNext_def split: if_splits)
qed

text \<open>After the first choice the prefetch for "the" is in flight.\<close>

theorem prefetch_single_flight_witness:
  "inflight (run chosen_run (mount random_low (Some ''gsk''))) = [Prefetch [''the'']]
   \<and> prefetchRef (run chosen_run (mount random_low (Some ''gsk'')))
   \<and> prefetchesInFlight (run chosen_run (mount random_low (Some ''gsk''))) = 1
   \<and> prefetchNext [''the''] ''rain'' (run chosen_run (mount random_low (Some ''gsk'')))
       = run chosen_run (mount random_low (Some ''gsk''))
   \<and> \<not> prefetchRef (step (Responds 0 NoContent)
         (run chosen_run (mount random_low (Some ''gsk''))))
   \<and> prefetchesInFlight (step (Responds 0 NoContent)
         (run chosen_run (mount random_low (Some ''gsk'')))) = 0"
proof -
  have a: "inflight (run chosen_run (mount random_low (Some ''gsk''))) = [Prefetch [''the'']]"
    by code_simp
  have b: "prefetchRef (run chosen_run (mount random_low (Some ''gsk'')))"
    by code_simp
  show ?thesis
    using prefetch_single_flight
        [where s = "run chosen_run (mount random_low (Some ''gsk''))" and es = chosen_run
           and random = random_low and stored = "Some ''gsk''" and ws = "[''the'']"
           and w = "''rain''" and i = 0 and r = NoContent, OF refl]
      a b
    by simp
qed

subsection \<open>The guard of chooseWord\<close>

text \<open>
  C10. When the phase is not \<open>choosing\<close>, or no current pair is set, \<open>chooseWord\<close> returns at
  once: the whole state is unchanged, words, phase, pairs, chosen side, loading flag,
  timers and calls in flight, and so is the state after the event and its render.
\<close>

theorem chooseWord_guard:
  "phase s \<noteq> Choosing \<or> currentPair s = None \<Longrightarrow>
     chooseWord sd s = s \<and> step (Choose sd) s = s"
  by (auto simp: chooseWord_def step_def beginEffect_def split: option.splits)

text \<open>A second choice while the first one dissolves.\<close>

theorem chooseWord_guard_witness:
  "phase (run chosen_run (mount random_low (Some ''gsk''))) = Dissolving
   \<and> chooseWord Leap (run chosen_run (mount random_low (Some ''gsk'')))
       = run chosen_run (mount random_low (Some ''gsk''))
   \<and> step (Choose Leap) (run chosen_run (mount random_low (Some ''gsk'')))
       = run chosen_run (mount random_low (Some ''gsk''))"
proof -
  have p: "phase (run chosen_run (mount random_low (Some ''gsk''))) = Dissolving"
    by code_simp
  then have "phase (run chosen_run (mount random_low (Some ''gsk''))) \<noteq> Choosing
      \<or> currentPair (run chosen_run (mount random_low (Some ''gsk''))) = None"
    by simp
  from chooseWord_guard [OF this, of Leap] p show ?thesis
    by simp
qed

end
